theory Spec2Isabelle
  imports Complex_Main
begin

section \<open>The asyncio primitives used by \<open>StudentWatcher\<close>\<close>

text \<open>
  The watcher of \<^verbatim>\<open>abstract_watcher.py\<close> holds \<^verbatim>\<open>asyncio.Task\<close> objects. A task is
  identified by the number the event loop gave it when \<^verbatim>\<open>asyncio.create_task\<close> made it.
  What a task looks like at one moment is its state: not done yet, done with a result,
  done with an exception, or done because it was cancelled (a coroutine that raises
  \<^verbatim>\<open>CancelledError\<close>, or awaits something cancelled, ends in that state).
\<close>

type_synonym task = nat

datatype ('v, 'e) task_state =
    Pending
  | Finished_value 'v
  | Finished_error 'e
  | Cancelled

text \<open>
  The exceptions that can leave the three methods: the two \<^verbatim>\<open>RuntimeError\<close>s the source
  raises itself (with their messages), the \<^verbatim>\<open>ValueError\<close> of \<^verbatim>\<open>asyncio.wait\<close> on an
  empty collection, and what \<^verbatim>\<open>Task.exception()\<close> raises on a task that was cancelled
  (\<^verbatim>\<open>CancelledError\<close>) or is not done (\<^verbatim>\<open>InvalidStateError\<close>).
\<close>

datatype exn =
    RuntimeError string
  | ValueError
  | CancelledError
  | InvalidStateError

text \<open>A call either returns, raises, or (awaiting forever) never returns.\<close>

datatype outcome = Returned | Raised exn | Never_returns

text \<open>
  The environment of one \<^verbatim>\<open>stop\<close> call: \<open>status\<close> is the state of every task at the
  moment \<^verbatim>\<open>asyncio.wait\<close> hands control back (for a wait without timeout: the state the
  task ends in, \<open>Pending\<close> meaning that it never finishes), and \<open>rank\<close> fixes the order
  in which Python iterates over the two sets \<^verbatim>\<open>done\<close> and \<^verbatim>\<open>pending\<close>, which the
  language leaves open.
\<close>

record ('v, 'e) env =
  status :: "task \<Rightarrow> ('v, 'e) task_state"
  rank :: "task \<Rightarrow> nat"

text \<open>
  What \<^verbatim>\<open>stop\<close> does to the outside: calls of the registrator and cancellation requests.
  Each entry of a trace carries the task whose loop iteration issued it.
\<close>

datatype ('v, 'e) effect = Register_value 'v | Register_error 'e | Cancel

type_synonym ('v, 'e) trace = "(task \<times> ('v, 'e) effect) list"

fun is_done :: "('v, 'e) task_state \<Rightarrow> bool" where
  "is_done Pending = False"
| "is_done (Finished_value v) = True"
| "is_done (Finished_error e) = True"
| "is_done Cancelled = True"

text \<open>\<^verbatim>\<open>fs = set(fs)\<close>: duplicates collapse, and the set is walked in the order of \<open>rank\<close>.\<close>

definition iteration_order :: "('v, 'e) env \<Rightarrow> task list \<Rightarrow> task list" where
  "iteration_order env fs = sort_key (rank env) (remdups fs)"

datatype wait_result =
    Wait_raised exn
  | Wait_forever
  | Wait_returned "task list" "task list"

text \<open>
  \<^verbatim>\<open>asyncio.wait(fs, timeout=timeout)\<close> with the default \<^verbatim>\<open>return_when=ALL_COMPLETED\<close>:
  an empty \<^verbatim>\<open>fs\<close> raises \<^verbatim>\<open>ValueError\<close>; otherwise the tasks are split into the done and
  the pending ones. Without a timeout the call returns only once nothing is pending.
\<close>

definition asyncio_wait ::
  "task list \<Rightarrow> real option \<Rightarrow> ('v, 'e) env \<Rightarrow> wait_result" where
  "asyncio_wait fs tmo env =
     (if fs = [] then Wait_raised ValueError
      else
        let fs' = iteration_order env fs;
            done = filter (\<lambda>t. is_done (status env t)) fs';
            pending = filter (\<lambda>t. \<not> is_done (status env t)) fs'
        in if tmo = None \<and> pending \<noteq> [] then Wait_forever
           else Wait_returned done pending)"

text \<open>\<^verbatim>\<open>asyncio.create_task\<close>: a new task object, different from every earlier one.\<close>

definition create_task :: "nat \<Rightarrow> task \<times> nat" where
  "create_task n = (n, Suc n)"

section \<open>\<open>StudentWatcher\<close>\<close>

record watcher =
  registrator :: nat
  timeout :: "real option"
  is_running :: bool
  tasks :: "task list"

text \<open>\<^verbatim>\<open>__init__(self, registrator, timeout=None)\<close>\<close>

definition init :: "nat \<Rightarrow> real option \<Rightarrow> watcher" where
  "init reg tmo = \<lparr>registrator = reg, timeout = tmo, is_running = False, tasks = []\<rparr>"

text \<open>
  \<^verbatim>\<open>__register_task\<close>: \<^verbatim>\<open>task.exception()\<close> raises on a cancelled task and on one that
  is not done; otherwise the exception or, when there is none, the result is registered.
\<close>

fun register_task :: "('v, 'e) env \<Rightarrow> task \<Rightarrow> exn + (task \<times> ('v, 'e) effect)" where
  "register_task env t =
     (case status env t of
        Cancelled \<Rightarrow> Inl CancelledError
      | Pending \<Rightarrow> Inl InvalidStateError
      | Finished_error e \<Rightarrow> Inr (t, Register_error e)
      | Finished_value v \<Rightarrow> Inr (t, Register_value v))"

text \<open>
  \<^verbatim>\<open>for task in done: self.__register_task(task)\<close>. An exception ends the loop; the
  calls made before it stay made.
\<close>

fun register_all :: "('v, 'e) env \<Rightarrow> task list \<Rightarrow> exn option \<times> ('v, 'e) trace" where
  "register_all env [] = (None, [])"
| "register_all env (t # ts) =
     (case register_task env t of
        Inl x \<Rightarrow> (Some x, [])
      | Inr c \<Rightarrow> (case register_all env ts of (r, cs) \<Rightarrow> (r, c # cs)))"

text \<open>\<^verbatim>\<open>for task in pending: task.cancel()\<close>\<close>

definition cancel_all :: "task list \<Rightarrow> ('v, 'e) trace" where
  "cancel_all pending = map (\<lambda>t. (t, Cancel)) pending"

definition start :: "watcher \<Rightarrow> outcome \<times> watcher" where
  "start w =
     (if is_running w then (Raised (RuntimeError ''Watcher is already running''), w)
      else (Returned, w\<lparr>is_running := True\<rparr>))"

definition stop :: "('v, 'e) env \<Rightarrow> watcher \<Rightarrow> outcome \<times> ('v, 'e) trace \<times> watcher" where
  "stop env w =
     (if \<not> is_running w then (Raised (RuntimeError ''Watcher is not running''), [], w)
      else
        case asyncio_wait (tasks w) (timeout w) env of
          Wait_raised x \<Rightarrow> (Raised x, [], w)
        | Wait_forever \<Rightarrow> (Never_returns, [], w)
        | Wait_returned done pending \<Rightarrow>
            (case register_all env done of
               (Some x, cs) \<Rightarrow> (Raised x, cs, w)
             | (None, cs) \<Rightarrow>
                 (Returned, cs @ cancel_all pending, w\<lparr>tasks := [], is_running := False\<rparr>)))"

text \<open>
  \<^verbatim>\<open>start_and_watch(coro)\<close>; the second argument and result is the event loop's task
  counter. What the coroutine does shows in the \<open>status\<close> of the task at \<^verbatim>\<open>stop\<close>.
\<close>

definition start_and_watch :: "watcher \<Rightarrow> nat \<Rightarrow> outcome \<times> watcher \<times> nat" where
  "start_and_watch w n =
     (if \<not> is_running w then (Raised (RuntimeError ''Watcher is not running''), w, n)
      else
        case create_task n of
          (task, n') \<Rightarrow> (Returned, w\<lparr>tasks := tasks w @ [task]\<rparr>, n'))"

section \<open>Sequences of calls\<close>

datatype ('v, 'e) api = Start | Start_and_watch | Stop "('v, 'e) env"

text \<open>One call on the watcher and the task counter: outcome, effects, state afterwards.\<close>

fun exec ::
  "('v, 'e) api \<Rightarrow> watcher \<times> nat \<Rightarrow> outcome \<times> ('v, 'e) trace \<times> (watcher \<times> nat)" where
  "exec Start (w, n) = (case start w of (r, w') \<Rightarrow> (r, [], (w', n)))"
| "exec Start_and_watch (w, n) =
     (case start_and_watch w n of (r, w', n') \<Rightarrow> (r, [], (w', n')))"
| "exec (Stop env) (w, n) = (case stop env w of (r, cs, w') \<Rightarrow> (r, cs, (w', n)))"

text \<open>
  A caller making the calls one after the other, going on after an exception. A call
  that never returns ends the sequence: no state follows it.
\<close>

fun run :: "('v, 'e) api list \<Rightarrow> watcher \<times> nat \<Rightarrow> (watcher \<times> nat) option" where
  "run [] s = Some s"
| "run (c # cs) s =
     (case exec c s of
        (Never_returns, _, _) \<Rightarrow> None
      | (_, _, s') \<Rightarrow> run cs s')"

text \<open>Counting in a trace.\<close>

fun is_register :: "task \<times> ('v, 'e) effect \<Rightarrow> bool" where
  "is_register (t, Register_value v) = True"
| "is_register (t, Register_error e) = True"
| "is_register (t, Cancel) = False"

fun is_cancel :: "task \<times> ('v, 'e) effect \<Rightarrow> bool" where
  "is_cancel (t, Cancel) = True"
| "is_cancel (t, Register_value v) = False"
| "is_cancel (t, Register_error e) = False"

definition recorder_calls :: "('v, 'e) trace \<Rightarrow> nat" where
  "recorder_calls cs = length (filter is_register cs)"

definition cancellations :: "('v, 'e) trace \<Rightarrow> nat" where
  "cancellations cs = length (filter is_cancel cs)"

text \<open>The effects of one task in a trace.\<close>

definition effects_of :: "task \<Rightarrow> ('v, 'e) trace \<Rightarrow> ('v, 'e) trace" where
  "effects_of t cs = filter (\<lambda>c. fst c = t) cs"

text \<open>
  What holds of the watcher and the task counter between calls: a watcher that is not
  running has no tasks, no task is held twice, and every task held was created.
\<close>

definition invariant :: "watcher \<times> nat \<Rightarrow> bool" where
  "invariant s =
     ((\<not> is_running (fst s) \<longrightarrow> tasks (fst s) = [])
      \<and> distinct (tasks (fst s))
      \<and> (\<forall>t\<in>set (tasks (fst s)). t < snd s))"

section \<open>Example runs\<close>

text \<open>
  Four tasks at a \<^verbatim>\<open>stop\<close> with a timeout of one second: task 0 has returned 1, task 1
  has raised, tasks 2 and 3 are still running. The sets are walked from the youngest
  task to the oldest.
\<close>

definition example_env :: "(int, string) env" where
  "example_env =
     \<lparr>status = (\<lambda>t. if t = 0 then Finished_value 1
                    else if t = 1 then Finished_error ''boom'' else Pending),
      rank = (\<lambda>t. 10 - t)\<rparr>"

definition example_watcher :: watcher where
  "example_watcher = \<lparr>registrator = 0, timeout = Some 1, is_running = True, tasks = [0, 1, 2, 3]\<rparr>"

text \<open>
  Task 0 has returned 7, task 1 ended cancelled (its coroutine raised
  \<^verbatim>\<open>CancelledError\<close>), every other task is still running.
\<close>

definition mixed_env :: "(int, string) env" where
  "mixed_env =
     \<lparr>status = (\<lambda>t. if t = 0 then Finished_value 7
                    else if t = 1 then Cancelled else Pending),
      rank = (\<lambda>t. t)\<rparr>"

text \<open>Every task ended cancelled.\<close>

definition cancelled_env :: "(int, string) env" where
  "cancelled_env = \<lparr>status = (\<lambda>t. Cancelled), rank = (\<lambda>t. t)\<rparr>"

section \<open>Auxiliary facts\<close>

lemma register_all_None:
  "register_all env ds = (None, cs) \<Longrightarrow>
     map fst cs = ds \<and> (\<forall>c\<in>set cs. register_task env (fst c) = Inr c)"
proof (induction ds arbitrary: cs)
  case Nil
  then show ?case by simp
next
  case (Cons t ts)
  from Cons.prems obtain c where c: "register_task env t = Inr c"
    by (cases "register_task env t") auto
  obtain r cs' where rec: "register_all env ts = (r, cs')"
    by (cases "register_all env ts") auto
  from Cons.prems c rec have r: "r = None" and cs: "cs = c # cs'"
    by auto
  from c have fc: "fst c = t"
    by (auto split: task_state.splits)
  from Cons.IH [of cs'] rec r
  have "map fst cs' = ts" and "\<forall>c\<in>set cs'. register_task env (fst c) = Inr c"
    by auto
  with c fc cs show ?case by auto
qed

lemma register_all_is_register:
  "register_all env ds = (r, cs) \<Longrightarrow> \<forall>c\<in>set cs. is_register c"
proof (induction ds arbitrary: r cs)
  case Nil
  then show ?case by simp
next
  case (Cons t ts)
  show ?case
  proof (cases "register_task env t")
    case (Inl x)
    with Cons.prems show ?thesis by simp
  next
    case (Inr c)
    obtain r' cs' where rec: "register_all env ts = (r', cs')"
      by (cases "register_all env ts") auto
    from Inr have "is_register c"
      by (auto split: task_state.splits)
    moreover from Cons.IH [OF rec] have "\<forall>c\<in>set cs'. is_register c" .
    moreover from Cons.prems Inr rec have "cs = c # cs'" by simp
    ultimately show ?thesis by simp
  qed
qed

lemma cancel_all_is_cancel: "\<forall>c\<in>set (cancel_all ps). is_cancel c"
  by (simp add: cancel_all_def)

lemma fst_cancel_all: "map fst (cancel_all ps) = ps"
  by (induction ps) (simp_all add: cancel_all_def)

lemma fst_set_cancel_all: "fst ` set (cancel_all ps) = set ps"
  using fst_cancel_all [of ps] by (metis set_map)

lemma cancel_all_not_register: "filter is_register (cancel_all ps) = []"
  by (induction ps) (simp_all add: cancel_all_def)

lemma filter_fst_unique:
  "distinct (map fst cs) \<Longrightarrow> c \<in> set cs \<Longrightarrow> filter (\<lambda>x. fst x = fst c) cs = [c]"
proof (induction cs)
  case Nil
  then show ?case by simp
next
  case (Cons a cs)
  show ?case
  proof (cases "a = c")
    case True
    with Cons.prems have "fst c \<notin> fst ` set cs" by simp
    then have "\<forall>x\<in>set cs. fst x \<noteq> fst c" by (metis imageI)
    then have "filter (\<lambda>x. fst x = fst c) cs = []" by (simp add: filter_empty_conv)
    with True show ?thesis by simp
  next
    case False
    with Cons.prems have "c \<in> set cs" by simp
    with Cons.prems have "fst a \<noteq> fst c" by (metis distinct.simps(2) imageI list.simps(9) set_map)
    with Cons \<open>c \<in> set cs\<close> show ?thesis by simp
  qed
qed

lemma filter_fst_absent:
  "t \<notin> fst ` set cs \<Longrightarrow> filter (\<lambda>x. fst x = t) cs = []"
  by (induction cs) auto

lemma set_iteration_order: "set (iteration_order env fs) = set fs"
  by (simp add: iteration_order_def)

lemma distinct_iteration_order: "distinct (iteration_order env fs)"
  by (simp add: iteration_order_def)

lemma length_iteration_order: "distinct fs \<Longrightarrow> length (iteration_order env fs) = length fs"
  by (simp add: iteration_order_def)

lemma stop_Returned:
  assumes "stop env w = (Returned, cs, w')"
  obtains rs where
    "is_running w" "tasks w \<noteq> []"
    "register_all env (filter (\<lambda>t. is_done (status env t)) (iteration_order env (tasks w)))
       = (None, rs)"
    "cs = rs @ cancel_all (filter (\<lambda>t. \<not> is_done (status env t)) (iteration_order env (tasks w)))"
    "w' = w\<lparr>tasks := [], is_running := False\<rparr>"
  using assms
  by (auto simp: stop_def asyncio_wait_def Let_def
      split: if_splits wait_result.splits prod.splits option.splits)

lemma invariant_init: "invariant (init reg tmo, n)"
  by (simp add: invariant_def init_def)

lemma stop_cases:
  "stop env w = (r, cs, w') \<Longrightarrow> w' = w \<or> w' = w\<lparr>tasks := [], is_running := False\<rparr>"
  by (auto simp: stop_def split: if_splits wait_result.splits prod.splits option.splits)

lemma invariant_exec:
  assumes "invariant s" and "exec c s = (r, cs, s')"
  shows "invariant s'"
proof (cases s)
  case (Pair w n)
  show ?thesis
  proof (cases c)
    case Start
    with assms Pair show ?thesis
      by (auto simp: invariant_def start_def split: if_splits)
  next
    case Start_and_watch
    with assms Pair show ?thesis
      by (auto simp: invariant_def start_and_watch_def create_task_def less_Suc_eq
          split: if_splits)
  next
    case (Stop env)
    with assms(2) Pair obtain w' where st: "stop env w = (r, cs, w')" and s': "s' = (w', n)"
      by (auto split: prod.splits)
    from stop_cases [OF st] assms(1) Pair s' show ?thesis
      by (auto simp: invariant_def)
  qed
qed

lemma invariant_run:
  "invariant s \<Longrightarrow> run calls s = Some s' \<Longrightarrow> invariant s'"
proof (induction calls arbitrary: s)
  case Nil
  then show ?case by simp
next
  case (Cons c calls)
  obtain r cs s1 where ex: "exec c s = (r, cs, s1)"
    by (cases "exec c s") auto
  with Cons.prems(2) have "run calls s1 = Some s'"
    by (cases r) simp_all
  moreover from Cons.prems(1) ex have "invariant s1"
    by (rule invariant_exec)
  ultimately show ?case by (rule Cons.IH [rotated])
qed

lemma idle_has_no_tasks:
  assumes "run calls (init reg tmo, n) = Some (w, k)" and "\<not> is_running w"
  shows "tasks w = []"
proof -
  have "invariant (w, k)"
    using invariant_init assms(1) by (rule invariant_run)
  with assms(2) show ?thesis by (simp add: invariant_def)
qed

lemma tasks_distinct:
  assumes "run calls (init reg tmo, n) = Some (w, k)"
  shows "distinct (tasks w)"
proof -
  have "invariant (w, k)"
    using invariant_init assms(1) by (rule invariant_run)
  then show ?thesis by (simp add: invariant_def)
qed

lemma filter_all: "\<forall>x\<in>set xs. P x \<Longrightarrow> filter P xs = xs"
  by (induction xs) simp_all

lemma filter_none: "\<forall>x\<in>set xs. \<not> P x \<Longrightarrow> filter P xs = []"
  by (induction xs) simp_all

lemma register_not_cancel:
  fixes c :: "task \<times> ('v, 'e) effect"
  shows "is_register c \<longleftrightarrow> \<not> is_cancel c"
  by (cases c rule: is_register.cases) simp_all

lemma successful_stop_accounts_for_all:
  fixes env :: "('v, 'e) env"
  assumes "distinct (tasks w)" and "stop env w = (Returned, cs, w')"
  shows "recorder_calls cs + cancellations cs = length (tasks w)"
proof -
  let ?fs = "iteration_order env (tasks w)"
  let ?done = "filter (\<lambda>t. is_done (status env t)) ?fs"
  let ?pending = "filter (\<lambda>t. \<not> is_done (status env t)) ?fs"
  let ?ps = "cancel_all ?pending :: ('v, 'e) trace"
  from assms(2) obtain rs where
    reg: "register_all env ?done = (None, rs)" and cs: "cs = rs @ ?ps"
    by (rule stop_Returned)
  have rs: "\<forall>c\<in>set rs. is_register c"
    using register_all_is_register [OF reg] .
  have ps: "\<forall>c\<in>set ?ps. is_cancel c"
    by (rule cancel_all_is_cancel)
  have "length rs = length ?done"
    using register_all_None [OF reg] by (metis length_map)
  moreover have "length ?ps = length ?pending"
    by (simp add: cancel_all_def)
  moreover have "filter is_register cs = rs"
    using rs ps by (simp add: cs filter_all filter_none register_not_cancel)
  moreover have "filter is_cancel cs = ?ps"
    using rs ps by (simp add: cs filter_all filter_none register_not_cancel)
  moreover have "length ?done + length ?pending = length ?fs"
    by (rule sum_length_filter_compl)
  moreover have "length ?fs = length (tasks w)"
    using assms(1) by (rule length_iteration_order)
  ultimately show ?thesis
    by (simp add: recorder_calls_def cancellations_def)
qed

lemma run_spawns:
  "is_running w \<Longrightarrow>
   run (replicate k Start_and_watch) (w, n) = Some (w\<lparr>tasks := tasks w @ [n..<n + k]\<rparr>, n + k)"
proof (induction k arbitrary: w n)
  case 0
  then show ?case by simp
next
  case (Suc k)
  let ?w = "w\<lparr>tasks := tasks w @ [n]\<rparr>"
  from Suc.prems have "is_running ?w" by simp
  from Suc.IH [OF this, of "Suc n"] Suc.prems show ?case
    by (simp add: start_and_watch_def create_task_def upt_rec [of n])
qed

lemma cycle_accounts_for_all:
  fixes env :: "('v, 'e) env"
  assumes "\<not> is_running w" and "tasks w = []"
    and "run (Start # replicate k (Start_and_watch :: ('v, 'e) api)) (w, n) = Some (w1, n1)"
    and "stop env w1 = (Returned, cs, w')"
  shows "recorder_calls cs + cancellations cs = k"
proof -
  let ?w = "w\<lparr>is_running := True\<rparr>"
  from assms(1) have "start w = (Returned, ?w)"
    by (simp add: start_def)
  with assms(3) have "run (replicate k (Start_and_watch :: ('v, 'e) api)) (?w, n) = Some (w1, n1)"
    by simp
  moreover have "run (replicate k (Start_and_watch :: ('v, 'e) api)) (?w, n)
      = Some (?w\<lparr>tasks := tasks ?w @ [n..<n + k]\<rparr>, n + k)"
    by (rule run_spawns) simp
  ultimately have "tasks w1 = [n..<n + k]"
    using assms(2) by auto
  then have "distinct (tasks w1)" and "length (tasks w1) = k" by simp_all
  with successful_stop_accounts_for_all [OF _ assms(4)] show ?thesis by simp
qed

text \<open>The example runs, evaluated.\<close>

lemma stop_example:
  "stop example_env example_watcher =
     (Returned,
      [(1, Register_error ''boom''), (0, Register_value 1), (3, Cancel), (2, Cancel)],
      \<lparr>registrator = 0, timeout = Some 1, is_running = False, tasks = []\<rparr>)"
  by (simp add: stop_def asyncio_wait_def iteration_order_def cancel_all_def
      example_env_def example_watcher_def)

lemma run_example:
  "run [Start, Start_and_watch, Stop example_env] (init 0 (Some 1), 0) = Some (init 0 (Some 1), 1)"
  by (simp add: start_def start_and_watch_def create_task_def stop_def asyncio_wait_def
      iteration_order_def cancel_all_def example_env_def init_def)

section \<open>The claims\<close>

text \<open>
  Claim C1. When \<^verbatim>\<open>stop\<close> returns normally, every task of \<open>tasks\<close> that the wait found
  finished with a result has exactly one effect in the trace, \<^verbatim>\<open>register_value\<close> of that
  result; every task found finished with an exception has exactly one effect,
  \<^verbatim>\<open>register_error\<close> of that exception; every task found pending has exactly one
  effect, the cancellation request, hence no registrator call. (A task found cancelled
  cannot occur in a \<^verbatim>\<open>stop\<close> that returns normally.)
\<close>

theorem stop_records_finished_cancels_pending:
  fixes env :: "('v, 'e) env"
  assumes "stop env w = (Returned, cs, w')"
  shows "\<forall>t\<in>set (tasks w).
           (case status env t of
              Finished_value v \<Rightarrow> effects_of t cs = [(t, Register_value v)]
            | Finished_error e \<Rightarrow> effects_of t cs = [(t, Register_error e)]
            | Pending \<Rightarrow> effects_of t cs = [(t, Cancel)]
            | Cancelled \<Rightarrow> False)"
proof
  fix t
  assume t: "t \<in> set (tasks w)"
  let ?fs = "iteration_order env (tasks w)"
  let ?done = "filter (\<lambda>t. is_done (status env t)) ?fs"
  let ?pending = "filter (\<lambda>t. \<not> is_done (status env t)) ?fs"
  let ?ps = "cancel_all ?pending :: ('v, 'e) trace"
  from assms obtain rs where
    reg: "register_all env ?done = (None, rs)" and cs: "cs = rs @ ?ps"
    by (rule stop_Returned)
  from register_all_None [OF reg]
  have fst_rs: "map fst rs = ?done"
    and rs_ok: "\<forall>c\<in>set rs. register_task env (fst c) = Inr c" by simp_all
  have dist_rs: "distinct (map fst rs)"
    using fst_rs distinct_iteration_order [of env "tasks w"] by simp
  have fst_ps: "map fst ?ps = ?pending"
    by (rule fst_cancel_all)
  have set_rs: "fst ` set rs = set ?done"
    using fst_rs by (metis set_map)
  have dist_ps: "distinct (map fst ?ps)"
    unfolding fst_ps by (simp add: distinct_iteration_order)
  from t have t_fs: "t \<in> set ?fs" by (simp add: set_iteration_order)
  show "case status env t of
          Finished_value v \<Rightarrow> effects_of t cs = [(t, Register_value v)]
        | Finished_error e \<Rightarrow> effects_of t cs = [(t, Register_error e)]
        | Pending \<Rightarrow> effects_of t cs = [(t, Cancel)]
        | Cancelled \<Rightarrow> False"
  proof (cases "is_done (status env t)")
    case True
    with t_fs have "t \<in> set (map fst rs)" by (simp add: fst_rs)
    then obtain c where c: "c \<in> set rs" and fc: "fst c = t" by auto
    from rs_ok c fc have rt: "register_task env t = Inr c" by auto
    have "filter (\<lambda>x. fst x = t) rs = [c]"
      using filter_fst_unique [OF dist_rs c] fc by simp
    moreover have "filter (\<lambda>x. fst x = t) ?ps = []"
      using True by (intro filter_fst_absent) (simp add: fst_set_cancel_all)
    ultimately have "effects_of t cs = [c]"
      by (simp add: effects_of_def cs)
    with rt show ?thesis
      by (auto split: task_state.splits)
  next
    case False
    then have st: "status env t = Pending" by (cases "status env t") simp_all
    let ?c = "(t, Cancel) :: task \<times> ('v, 'e) effect"
    from False t_fs have tp: "?c \<in> set ?ps"
      by (simp add: cancel_all_def)
    have "filter (\<lambda>x. fst x = fst ?c) ?ps = [?c]"
      using dist_ps tp by (rule filter_fst_unique)
    moreover have "filter (\<lambda>x. fst x = t) rs = []"
      using False by (intro filter_fst_absent) (simp add: set_rs)
    ultimately have "effects_of t cs = [(t, Cancel)]"
      by (simp add: effects_of_def cs)
    with st show ?thesis by simp
  qed
qed

theorem stop_records_finished_cancels_pending_witness:
  "stop example_env example_watcher =
     (Returned,
      [(1, Register_error ''boom''), (0, Register_value 1), (3, Cancel), (2, Cancel)],
      \<lparr>registrator = 0, timeout = Some 1, is_running = False, tasks = []\<rparr>)
   \<and> effects_of 0 [(1, Register_error ''boom''), (0, Register_value 1), (3, Cancel), (2, Cancel)]
       = [(0, Register_value (1::int)) :: task \<times> (int, string) effect]
   \<and> effects_of 1 [(1, Register_error ''boom''), (0, Register_value 1), (3, Cancel), (2, Cancel)]
       = [(1, Register_error ''boom'') :: task \<times> (int, string) effect]
   \<and> effects_of 2 [(1, Register_error ''boom''), (0, Register_value 1), (3, Cancel), (2, Cancel)]
       = [(2, Cancel) :: task \<times> (int, string) effect]
   \<and> effects_of 3 [(1, Register_error ''boom''), (0, Register_value 1), (3, Cancel), (2, Cancel)]
       = [(3, Cancel) :: task \<times> (int, string) effect]"
proof -
  note all = stop_records_finished_cancels_pending [OF stop_example]
  have tasks: "tasks example_watcher = [0, 1, 2, 3]"
    by (simp add: example_watcher_def)
  have s0: "status example_env 0 = Finished_value 1"
    and s1: "status example_env 1 = Finished_error ''boom''"
    and s2: "status example_env 2 = Pending"
    and s3: "status example_env 3 = Pending"
    by (simp_all add: example_env_def)
  from all tasks s0 s1 s2 s3 stop_example show ?thesis by simp
qed

text \<open>
  Claim C2. From a running watcher, whatever its tasks, a \<^verbatim>\<open>stop\<close> that returns
  normally leaves \<open>tasks\<close> empty and the watcher not running, and the next
  \<^verbatim>\<open>start\<close> returns normally.
\<close>

theorem stop_leaves_idle_and_empty:
  assumes "is_running w" and "stop env w = (Returned, cs, w')"
  shows "tasks w' = [] \<and> \<not> is_running w' \<and> start w' = (Returned, w'\<lparr>is_running := True\<rparr>)"
proof -
  from assms(2) have "w' = w\<lparr>tasks := [], is_running := False\<rparr>"
    by (rule stop_Returned)
  then show ?thesis by (simp add: start_def)
qed

theorem stop_leaves_idle_and_empty_witness:
  "is_running example_watcher
   \<and> stop example_env example_watcher =
     (Returned,
      [(1, Register_error ''boom''), (0, Register_value 1), (3, Cancel), (2, Cancel)],
      \<lparr>registrator = 0, timeout = Some 1, is_running = False, tasks = []\<rparr>)
   \<and> tasks \<lparr>registrator = 0, timeout = Some 1, is_running = False, tasks = []\<rparr> = []
   \<and> \<not> is_running \<lparr>registrator = 0, timeout = Some 1, is_running = False, tasks = []\<rparr>
   \<and> start \<lparr>registrator = 0, timeout = Some 1, is_running = False, tasks = []\<rparr>
       = (Returned, \<lparr>registrator = 0, timeout = Some 1, is_running = True, tasks = []\<rparr>)"
proof -
  have r: "is_running example_watcher"
    by (simp add: example_watcher_def)
  from stop_leaves_idle_and_empty [OF r stop_example] r stop_example
  show ?thesis by simp
qed

text \<open>
  Claim C3. In every cycle of \<^verbatim>\<open>start\<close>, some \<^verbatim>\<open>start_and_watch\<close> calls and \<^verbatim>\<open>stop\<close>, the
  registrator calls and the cancellation requests of \<^verbatim>\<open>stop\<close> together are as many as
  the tasks started. The code at a cycle of three tasks, of which task 0 has returned,
  task 1 ended cancelled and task 2 is still running when the wait times out:
  \<^verbatim>\<open>stop\<close> registers task 0, raises \<^verbatim>\<open>CancelledError\<close> at task 1 and never reaches
  task 2, so one effect stands against three tasks. (For a \<^verbatim>\<open>stop\<close> that returns
  normally the count is right: \<open>cycle_accounts_for_all\<close>.)
\<close>

theorem cancelled_task_breaks_accounting:
  "run [Start, Start_and_watch, Start_and_watch, Start_and_watch :: (int, string) api]
       (init 0 (Some 1), 0)
     = Some (\<lparr>registrator = 0, timeout = Some 1, is_running = True, tasks = [0, 1, 2]\<rparr>, 3)
   \<and> stop mixed_env \<lparr>registrator = 0, timeout = Some 1, is_running = True, tasks = [0, 1, 2]\<rparr>
       = (Raised CancelledError, [(0, Register_value 7)],
          \<lparr>registrator = 0, timeout = Some 1, is_running = True, tasks = [0, 1, 2]\<rparr>)
   \<and> recorder_calls [(0, Register_value 7) :: task \<times> (int, string) effect]
       + cancellations [(0, Register_value 7) :: task \<times> (int, string) effect] = 1
   \<and> length (tasks \<lparr>registrator = 0, timeout = Some 1, is_running = True, tasks = [0, 1, 2]\<rparr>) = 3"
  by (simp add: start_def start_and_watch_def create_task_def stop_def asyncio_wait_def
      iteration_order_def mixed_env_def init_def recorder_calls_def cancellations_def)

text \<open>
  Claim C4. \<^verbatim>\<open>stop\<close> on a running watcher without tasks returns normally, with no
  effect, and leaves the watcher not running. The code there: \<^verbatim>\<open>asyncio.wait\<close> gets an
  empty list and raises \<^verbatim>\<open>ValueError\<close>, which leaves \<^verbatim>\<open>stop\<close>; the watcher stays
  running.
\<close>

theorem stop_without_tasks_raises:
  "start (init reg tmo) = (Returned, \<lparr>registrator = reg, timeout = tmo, is_running = True, tasks = []\<rparr>)
   \<and> stop env \<lparr>registrator = reg, timeout = tmo, is_running = True, tasks = []\<rparr>
       = (Raised ValueError, [], \<lparr>registrator = reg, timeout = tmo, is_running = True, tasks = []\<rparr>)"
  by (simp add: start_def init_def stop_def asyncio_wait_def)

text \<open>
  Claim C5, as the code has it. \<^verbatim>\<open>start\<close> on a watcher that is not running returns
  normally and sets \<open>is_running\<close>; it leaves \<open>tasks\<close> as it is. After any sequence of
  calls on a new watcher, a watcher that is not running has no tasks, so there \<open>tasks\<close>
  is empty right after \<^verbatim>\<open>start\<close>.
\<close>

theorem start_keeps_tasks:
  assumes "\<not> is_running w"
  shows "start w = (Returned, w\<lparr>is_running := True\<rparr>)
       \<and> (run calls (init reg tmo, n) = Some (w, k) \<longrightarrow> tasks (snd (start w)) = [])"
proof -
  from assms have st: "start w = (Returned, w\<lparr>is_running := True\<rparr>)"
    by (simp add: start_def)
  have "tasks (snd (start w)) = []" if "run calls (init reg tmo, n) = Some (w, k)"
    using idle_has_no_tasks [OF that assms] st by simp
  with st show ?thesis by blast
qed

theorem start_keeps_tasks_witness:
  "\<not> is_running (init 0 (Some 1))
   \<and> run [Start, Start_and_watch, Stop example_env] (init 0 (Some 1), 0)
       = Some (init 0 (Some 1), 1)
   \<and> start (init 0 (Some 1)) = (Returned, (init 0 (Some 1))\<lparr>is_running := True\<rparr>)
   \<and> tasks (snd (start (init 0 (Some 1)))) = []"
proof -
  have idle: "\<not> is_running (init 0 (Some 1))"
    by (simp add: init_def)
  from start_keeps_tasks [OF idle,
      where calls = "[Start, Start_and_watch, Stop example_env]"
        and reg = 0 and tmo = "Some 1" and n = 0 and k = 1]
    run_example idle
  show ?thesis by blast
qed

text \<open>
  The claim as worded, that \<^verbatim>\<open>start\<close> clears stale tasks, fails on a watcher that is not
  running and holds a task: the task is still there afterwards.
\<close>

theorem start_keeps_stale_tasks:
  "start \<lparr>registrator = 0, timeout = None, is_running = False, tasks = [7]\<rparr>
     = (Returned, \<lparr>registrator = 0, timeout = None, is_running = True, tasks = [7]\<rparr>)
   \<and> tasks (snd (start \<lparr>registrator = 0, timeout = None, is_running = False, tasks = [7]\<rparr>)) \<noteq> []"
  by (simp add: start_def)

text \<open>
  Claim C6. On a watcher that is not running, \<^verbatim>\<open>stop\<close> and \<^verbatim>\<open>start_and_watch\<close> raise
  the \<^verbatim>\<open>RuntimeError\<close> "Watcher is not running", have no effect, create no task and
  leave the watcher as it was.
\<close>

theorem not_running_rejected:
  assumes "\<not> is_running w"
  shows "stop env w = (Raised (RuntimeError ''Watcher is not running''), [], w)
       \<and> start_and_watch w n = (Raised (RuntimeError ''Watcher is not running''), w, n)"
  using assms by (simp add: stop_def start_and_watch_def)

theorem not_running_rejected_witness:
  "\<not> is_running (init 0 None)
   \<and> stop example_env (init 0 None)
       = (Raised (RuntimeError ''Watcher is not running''), [], init 0 None)
   \<and> start_and_watch (init 0 None) 5
       = (Raised (RuntimeError ''Watcher is not running''), init 0 None, 5)"
proof -
  have idle: "\<not> is_running (init 0 None)"
    by (simp add: init_def)
  from not_running_rejected [OF idle, of example_env 5] idle show ?thesis by simp
qed

text \<open>
  Claim C7. On a running watcher \<^verbatim>\<open>start\<close> raises the \<^verbatim>\<open>RuntimeError\<close>
  "Watcher is already running" and leaves the whole watcher as it was.
\<close>

theorem start_twice_rejected:
  assumes "is_running w"
  shows "start w = (Raised (RuntimeError ''Watcher is already running''), w)"
  using assms by (simp add: start_def)

theorem start_twice_rejected_witness:
  "is_running example_watcher
   \<and> start example_watcher = (Raised (RuntimeError ''Watcher is already running''), example_watcher)"
proof -
  have r: "is_running example_watcher"
    by (simp add: example_watcher_def)
  from start_twice_rejected [OF r] r show ?thesis by simp
qed

text \<open>
  Claim C8. A watcher that is not running has no tasks, and every return of \<^verbatim>\<open>stop\<close>,
  normal or not, leaves \<open>tasks\<close> empty. The first half holds (\<open>idle_has_no_tasks\<close>). The
  code at \<^verbatim>\<open>start\<close>, one \<^verbatim>\<open>start_and_watch\<close> of a coroutine that ends cancelled, and
  \<^verbatim>\<open>stop\<close>: \<^verbatim>\<open>task.exception()\<close> raises \<^verbatim>\<open>CancelledError\<close>, which leaves \<^verbatim>\<open>stop\<close>
  before \<^verbatim>\<open>self.tasks = []\<close>; the task is still held.
\<close>

theorem cancelled_task_stop_keeps_tasks:
  "run [Start, Start_and_watch :: (int, string) api] (init 0 None, 0)
     = Some (\<lparr>registrator = 0, timeout = None, is_running = True, tasks = [0]\<rparr>, 1)
   \<and> stop cancelled_env \<lparr>registrator = 0, timeout = None, is_running = True, tasks = [0]\<rparr>
       = (Raised CancelledError, [],
          \<lparr>registrator = 0, timeout = None, is_running = True, tasks = [0]\<rparr>)
   \<and> tasks (snd (snd (stop cancelled_env
         \<lparr>registrator = 0, timeout = None, is_running = True, tasks = [0]\<rparr>))) \<noteq> []"
  by (simp add: start_def start_and_watch_def create_task_def stop_def asyncio_wait_def
      iteration_order_def cancelled_env_def init_def)

text \<open>
  Claim C9. None of \<^verbatim>\<open>start\<close>, \<^verbatim>\<open>stop\<close> and \<^verbatim>\<open>start_and_watch\<close>, whatever its
  outcome, changes the fields \<open>registrator\<close> and \<open>timeout\<close>.
\<close>

theorem registrator_timeout_fixed:
  "registrator (snd (start w)) = registrator w \<and> timeout (snd (start w)) = timeout w
 \<and> registrator (snd (snd (stop env w))) = registrator w
 \<and> timeout (snd (snd (stop env w))) = timeout w
 \<and> registrator (fst (snd (start_and_watch w n))) = registrator w
 \<and> timeout (fst (snd (start_and_watch w n))) = timeout w"
  by (simp add: start_def stop_def start_and_watch_def create_task_def
      split: wait_result.splits prod.splits option.splits)

text \<open>
  Claim C10. In the trace of a \<^verbatim>\<open>stop\<close> that returns normally no cancellation request
  stands before a registrator call.
\<close>

theorem stop_registers_before_cancelling:
  fixes env :: "('v, 'e) env"
  assumes "stop env w = (Returned, cs, w')"
  shows "\<forall>i j. i < j \<and> j < length cs \<and> is_cancel (cs ! i) \<longrightarrow> \<not> is_register (cs ! j)"
proof (intro allI impI)
  fix i j
  assume "i < j \<and> j < length cs \<and> is_cancel (cs ! i)"
  then have ij: "i < j" and jl: "j < length cs" and ci: "is_cancel (cs ! i)"
    by simp_all
  let ?fs = "iteration_order env (tasks w)"
  let ?done = "filter (\<lambda>t. is_done (status env t)) ?fs"
  let ?pending = "filter (\<lambda>t. \<not> is_done (status env t)) ?fs"
  let ?ps = "cancel_all ?pending :: ('v, 'e) trace"
  from assms obtain rs where
    reg: "register_all env ?done = (None, rs)" and cs: "cs = rs @ ?ps"
    by (rule stop_Returned)
  have rs: "\<forall>c\<in>set rs. is_register c"
    using register_all_is_register [OF reg] .
  have no_both: "\<And>c::task \<times> ('v, 'e) effect. is_register c \<Longrightarrow> \<not> is_cancel c"
  proof -
    fix c :: "task \<times> ('v, 'e) effect"
    assume "is_register c"
    then show "\<not> is_cancel c" by (cases c rule: is_register.cases) simp_all
  qed
  have "\<not> i < length rs"
  proof
    assume "i < length rs"
    then have "cs ! i \<in> set rs" by (simp add: cs nth_append)
    with rs have "is_register (cs ! i)" by simp
    with no_both ci show False by blast
  qed
  with ij have j: "length rs \<le> j" by simp
  from jl have "j < length rs + length ?ps"
    by (simp add: cs)
  with j have "j - length rs < length ?ps"
    by arith
  then have "?ps ! (j - length rs) \<in> set ?ps"
    by (rule nth_mem)
  with j have "cs ! j \<in> set ?ps"
    by (simp add: cs nth_append)
  with cancel_all_is_cancel have "is_cancel (cs ! j)" by blast
  with no_both show "\<not> is_register (cs ! j)" by blast
qed

theorem stop_registers_before_cancelling_witness:
  "stop example_env example_watcher =
     (Returned,
      [(1, Register_error ''boom''), (0, Register_value 1), (3, Cancel), (2, Cancel)],
      \<lparr>registrator = 0, timeout = Some 1, is_running = False, tasks = []\<rparr>)
   \<and> (2::nat) < 3
   \<and> 3 < length [(1, Register_error ''boom''), (0, Register_value (1::int)), (3, Cancel), (2::task, Cancel :: (int, string) effect)]
   \<and> is_cancel ([(1, Register_error ''boom''), (0, Register_value (1::int)), (3, Cancel), (2::task, Cancel :: (int, string) effect)] ! 2)
   \<and> \<not> is_register ([(1, Register_error ''boom''), (0, Register_value (1::int)), (3, Cancel), (2::task, Cancel :: (int, string) effect)] ! 3)"
proof -
  let ?cs = "[(1, Register_error ''boom''), (0, Register_value (1::int)), (3, Cancel),
              (2::task, Cancel :: (int, string) effect)]"
  have pre: "(2::nat) < 3 \<and> 3 < length ?cs \<and> is_cancel (?cs ! 2)"
    by simp
  from stop_registers_before_cancelling [OF stop_example] pre
  have "\<not> is_register (?cs ! 3)" by blast
  with pre stop_example show ?thesis by blast
qed

end
